theory Spec2Isabelle
  imports Main "HOL-Library.Sublist"
begin

section \<open>Token model (zergb/lexer.py)\<close>

text \<open>
  Source text is a \<open>string\<close>, a list of characters. The lexer compares characters only
  with ASCII characters, so it makes no difference to what it does whether a character
  that is not ASCII is one element of the list or several.

  The enumeration \<^verbatim>\<open>TokenType\<close>. The first nine members are structural: their values
  come from \<^verbatim>\<open>enum.auto()\<close> and are integers. Every other member carries its spelling
  as its value.
\<close>

datatype TokenType =
    ROOT | UNKNOWN | NEWLINE | COMMENT | INDENT | DEDENT | SPACE | STRING | NAME
  | ADD | SUB | MUL | DIV | MOD | NEG | INC | DEC | LT | GT | AND | OR | NOT | XOR
  | LSHIFT | RSHIFT | LPARENTHESES | RPARENTHESES | LBRACE | RBRACE | LBRACKET | RBRACKET
  | ARROW | FN | PRINT | NOP

text \<open>The string-valued members, in declaration order, each with its value.\<close>

definition literals :: "(string \<times> TokenType) list" where
  "literals =
    [(''+'', ADD), (''-'', SUB), (''*'', MUL), (''/'', DIV), (''%'', MOD), (''~'', NEG),
     (''++'', INC), (''--'', DEC), (''<'', LT), (''>'', GT), (''&'', AND), (''|'', OR),
     (''!'', NOT), (''^'', XOR), (''<<'', LSHIFT), (''>>'', RSHIFT),
     (''('', LPARENTHESES), ('')'', RPARENTHESES), (''{'', LBRACE), (''}'', RBRACE),
     (''['', LBRACKET), ('']'', RBRACKET), (''->'', ARROW),
     (''fn'', FN), (''print'', PRINT), (''nop'', NOP)]"

text \<open>
  \<^verbatim>\<open>TokenType(raw)\<close> for a string \<^verbatim>\<open>raw\<close>: lookup by value. A string is never equal to
  one of the integer values of the structural members, so only the string-valued members
  can be found; \<open>None\<close> stands for the \<^verbatim>\<open>ValueError\<close> of a failed lookup.
\<close>

definition TokenType_of :: "string \<Rightarrow> TokenType option" where
  "TokenType_of rw = map_of literals rw"

record Token =
  raw :: string
  type :: TokenType

text \<open>The constructor \<^verbatim>\<open>Token(raw, tt)\<close>; \<^verbatim>\<open>Token(raw)\<close> is \<open>Token raw UNKNOWN\<close>.\<close>

definition Token :: "string \<Rightarrow> TokenType \<Rightarrow> Token" where
  "Token r tt = \<lparr>raw = r, type = tt\<rparr>"

text \<open>\<^verbatim>\<open>Token.__str__\<close>, which \<^verbatim>\<open>__repr__\<close> returns too.\<close>

definition Token_str :: "Token \<Rightarrow> string" where
  "Token_str t =
     (if type t = SPACE then ''[SPACE]''
      else if type t = NEWLINE then ''[NEWLINE]''
      else raw t)"

section \<open>Exceptions and generators\<close>

text \<open>
  The exceptions the lexer and the parser can raise, \<open>ValueError\<close> with its message and
  \<open>AttributeError\<close> with the name of the missing attribute. \<open>RecursionError\<close> is what
  the interpreter raises when calls nest deeper than it allows: the recursion of
  \<^verbatim>\<open>yield_tokens\<close> and the rendering of nodes carry the number of nested calls that are
  still allowed. The recursion of the parser, one round per nested scope, is taken
  without such a bound.
\<close>

datatype error =
    StopIteration | ValueError string | IndexError | NotImplementedError
  | AttributeError string | AssertionError | RecursionError

text \<open>
  A generator that is run to its end has yielded a finite list of items and then either
  returned (\<open>None\<close>) or raised (\<open>Some e\<close>). A consumer that pulls items one by one sees
  the items in order and meets the exception only after the last of them.
\<close>

type_synonym 'a gen = "'a list \<times> error option"

text \<open>Running one generator, and the second one only if the first returned.\<close>

definition gen_then :: "'a gen \<Rightarrow> 'a gen \<Rightarrow> 'a gen" where
  "gen_then g h =
     (case snd g of
        None \<Rightarrow> (fst g @ fst h, snd h)
      | Some e \<Rightarrow> (fst g, Some e))"

section \<open>Lexer (zergb/lexer.py)\<close>

definition newline :: char where
  "newline = CHR 0x0A"

definition tab :: char where
  "tab = CHR 0x09"

text \<open>
  \<^verbatim>\<open>repr\<close> of a string of one character, as the message of a failed lookup shows the
  value: in single quotes, in double quotes when the character is the single quote; the
  backslash doubled; tab, newline and carriage return as \<^verbatim>\<open>\t\<close>, \<^verbatim>\<open>\n\<close>, \<^verbatim>\<open>\r\<close>; any
  other control character as \<^verbatim>\<open>\x\<close> and two hexadecimal digits. A character from 0x80 on
  is kept as it is, as \<^verbatim>\<open>repr\<close> keeps a printable character that is not ASCII.
\<close>

definition hex_digit :: "nat \<Rightarrow> char" where
  "hex_digit n = ''0123456789abcdef'' ! n"

definition repr_char :: "char \<Rightarrow> string" where
  "repr_char c =
     (if c = CHR 0x27 then [CHR 0x22, c, CHR 0x22]
      else
        [CHR 0x27]
        @ (if c = CHR 0x5C then [CHR 0x5C, CHR 0x5C]
           else if c = tab then [CHR 0x5C, CHR ''t'']
           else if c = newline then [CHR 0x5C, CHR ''n'']
           else if c = CHR 0x0D then [CHR 0x5C, CHR ''r'']
           else if (of_char c :: nat) < 32 \<or> (of_char c :: nat) = 127 then
             [CHR 0x5C, CHR ''x'', hex_digit (of_char c div 16), hex_digit (of_char c mod 16)]
           else [c])
        @ [CHR 0x27])"

text \<open>
  \<^verbatim>\<open>TokenType.yield_tokens\<close>. The lookup of the whole string is tried first; when it
  fails, \<^verbatim>\<open>raw[0]\<close> raises \<^verbatim>\<open>IndexError\<close> on the empty string, and the lookup of the
  first character raises \<^verbatim>\<open>ValueError\<close> when no member has that value.

  The generator delegates to a new generator of itself for the rest of the string, so each
  character that is peeled off adds one call to the calls that are running. The first
  argument is the number of nested calls of \<^verbatim>\<open>yield_tokens\<close> that the interpreter still
  allows. A call beyond them raises \<^verbatim>\<open>RecursionError\<close>; the tokens of the characters
  peeled before have been yielded by then.
\<close>

fun yield_tokens :: "nat \<Rightarrow> string \<Rightarrow> Token gen" where
  "yield_tokens 0 rw = ([], Some RecursionError)"
| "yield_tokens (Suc depth) rw =
     (case TokenType_of rw of
        Some tt \<Rightarrow> ([Token rw tt], None)
      | None \<Rightarrow>
          (case rw of
             [] \<Rightarrow> ([], Some IndexError)
           | first # remains \<Rightarrow>
               (case TokenType_of [first] of
                  None \<Rightarrow>
                    ([], Some (ValueError (repr_char first @ '' is not a valid TokenType'')))
                | Some tt \<Rightarrow> gen_then ([Token [first] tt], None) (yield_tokens depth remains))))"

definition OPERATORS :: string where
  "OPERATORS = ''+-*/%<>&|!^~(){}[]''"

text \<open>The slice \<^verbatim>\<open>src[i:j]\<close> for indices that are not negative.\<close>

definition slice :: "string \<Rightarrow> nat \<Rightarrow> nat \<Rightarrow> string" where
  "slice src i j = take (j - i) (drop i src)"

text \<open>
  The inner loops of \<^verbatim>\<open>lexer_by_tokens\<close> all have the shape
  \<^verbatim>\<open>while stop < len(src) and P(src[stop]): stop += 1\<close>; \<open>scan P src stop\<close> is the value of
  \<^verbatim>\<open>stop\<close> when the loop ends.
\<close>

function scan :: "(char \<Rightarrow> bool) \<Rightarrow> string \<Rightarrow> nat \<Rightarrow> nat" where
  "scan P src stop = (if stop < length src \<and> P (src ! stop) then scan P src (stop + 1) else stop)"
  by pat_completeness auto
termination
  by (relation "measure (\<lambda>(P, src, stop). length src - stop)") auto

declare scan.simps [simp del]

lemma scan_ge: "stop \<le> scan P src stop"
proof (induction P src stop rule: scan.induct)
  case (1 P src stop)
  show ?case
  proof (cases "stop < length src \<and> P (src ! stop)")
    case True
    with 1 have "stop + 1 \<le> scan P src (stop + 1)" by simp
    moreover from True have "scan P src stop = scan P src (stop + 1)"
      by (subst scan.simps) simp
    ultimately show ?thesis by simp
  next
    case False
    then have "scan P src stop = stop" by (subst scan.simps) auto
    then show ?thesis by simp
  qed
qed

lemma scan_gt: "stop < length src \<Longrightarrow> P (src ! stop) \<Longrightarrow> stop < scan P src stop"
proof -
  assume a: "stop < length src" "P (src ! stop)"
  then have "scan P src stop = scan P src (stop + 1)" by (subst scan.simps) simp
  moreover have "stop + 1 \<le> scan P src (stop + 1)" by (rule scan_ge)
  ultimately show ?thesis by simp
qed

text \<open>
  \<^verbatim>\<open>Lexer.lexer_by_tokens\<close>: the outer loop, from the current value of \<^verbatim>\<open>index\<close>. Each
  branch yields one token and sets \<^verbatim>\<open>index\<close>; the \<^verbatim>\<open>index += 1\<close> that ends the loop body is
  the \<open>+ 1\<close> of each recursive call. Every read \<^verbatim>\<open>src[i]\<close> stands behind its bound check,
  as in the source, so no read can raise.
\<close>

function lexer_by_tokens_from :: "string \<Rightarrow> nat \<Rightarrow> Token list" where
  "lexer_by_tokens_from src index =
     (if index < length src then
        (let tt = src ! index in
         if tt = newline then
           Token [tt] NEWLINE # lexer_by_tokens_from src (index + 1)
         else if tt = CHR ''/'' then
           (if index + 1 < length src \<and> src ! (index + 1) = CHR ''/'' then
              (let stop = scan (\<lambda>c. c \<noteq> newline) src (index + 2) in
               Token (slice src index stop) COMMENT # lexer_by_tokens_from src (stop + 1))
            else
              Token [tt] UNKNOWN # lexer_by_tokens_from src (index + 1))
         else if tt = CHR '' '' \<or> tt = tab then
           (let stop = scan (\<lambda>c. c \<in> set [CHR '' '', tab]) src (index + 1) in
            Token (slice src index stop) SPACE # lexer_by_tokens_from src (stop - 1 + 1))
         else if tt = CHR 0x22 then
           (let stop = scan (\<lambda>c. c \<noteq> CHR 0x22) src (index + 1) in
            Token (slice src index (stop + 1)) STRING # lexer_by_tokens_from src (stop + 1))
         else
           (let stop = scan (\<lambda>c. c \<notin> set [CHR '' '', tab, newline]) src index in
            Token (slice src index stop) UNKNOWN # lexer_by_tokens_from src (stop - 1 + 1)))
      else [])"
  by pat_completeness auto
termination
proof (relation "measure (\<lambda>(src, index). length src - index)", goal_cases)
  case 1
  show ?case by simp
next
  case (2 src index tt)
  then show ?case by simp
next
  case (3 src index tt stop)
  have "index + 2 \<le> scan (\<lambda>c. c \<noteq> newline) src (index + 2)" by (rule scan_ge)
  with 3 show ?case by auto
next
  case (4 src index tt)
  then show ?case by simp
next
  case (5 src index tt stop)
  have "index + 1 \<le> scan (\<lambda>c. c \<in> set [CHR '' '', tab]) src (index + 1)" by (rule scan_ge)
  with 5 show ?case by auto
next
  case (6 src index tt stop)
  have "index + 1 \<le> scan (\<lambda>c. c \<noteq> CHR 0x22) src (index + 1)" by (rule scan_ge)
  with 6 show ?case by auto
next
  case (7 src index tt stop)
  then have "index < scan (\<lambda>c. c \<notin> set [CHR '' '', tab, newline]) src index"
    by (intro scan_gt) auto
  with 7 show ?case by auto
qed

declare lexer_by_tokens_from.simps [simp del]

definition lexer_by_tokens :: "string \<Rightarrow> Token gen" where
  "lexer_by_tokens src = (lexer_by_tokens_from src 0, None)"

text \<open>
  \<^verbatim>\<open>Lexer.lexer_extract_operator\<close>, the loop over the characters of one unknown token:
  the characters still to read, then the accumulators \<^verbatim>\<open>remains\<close> and \<^verbatim>\<open>operators\<close>.
  The first equation is the code after the loop. \<open>limit\<close> is the number of nested calls
  of \<^verbatim>\<open>yield_tokens\<close> the interpreter allows from here.
\<close>

fun extract_operator_raw :: "nat \<Rightarrow> string \<Rightarrow> string \<Rightarrow> string \<Rightarrow> Token gen" where
  "extract_operator_raw limit [] remains operators =
     gen_then (if remains \<noteq> [] then ([Token remains UNKNOWN], None) else ([], None))
              (if operators \<noteq> [] then yield_tokens limit operators else ([], None))"
| "extract_operator_raw limit (tt # rest) remains operators =
     (if tt \<in> set OPERATORS then
        gen_then (if remains \<noteq> [] then ([Token remains UNKNOWN], None) else ([], None))
                 (extract_operator_raw limit rest [] (operators @ [tt]))
      else
        gen_then (if operators \<noteq> [] then yield_tokens limit operators else ([], None))
                 (extract_operator_raw limit rest (remains @ [tt]) []))"

text \<open>
  The loop over the tokens of the stage before: the tokens it yielded, and how it ended.
\<close>

fun extract_operator_tokens :: "nat \<Rightarrow> Token list \<Rightarrow> error option \<Rightarrow> Token gen" where
  "extract_operator_tokens limit [] e = ([], e)"
| "extract_operator_tokens limit (token # tokens) e =
     gen_then
       (if type token = UNKNOWN then extract_operator_raw limit (raw token) [] []
        else ([token], None))
       (extract_operator_tokens limit tokens e)"

definition lexer_extract_operator :: "nat \<Rightarrow> Token gen \<Rightarrow> Token gen" where
  "lexer_extract_operator limit tokens = extract_operator_tokens limit (fst tokens) (snd tokens)"

text \<open>\<^verbatim>\<open>Lexer.lexer_identify_word\<close>.\<close>

fun identify_word_tokens :: "Token list \<Rightarrow> error option \<Rightarrow> Token gen" where
  "identify_word_tokens [] e = ([], e)"
| "identify_word_tokens (token # tokens) e =
     gen_then
       (if type token = UNKNOWN then
          (case TokenType_of (raw token) of
             Some tt \<Rightarrow> ([Token (raw token) tt], None)
           | None \<Rightarrow> ([Token (raw token) NAME], None))
        else ([token], None))
       (identify_word_tokens tokens e)"

definition lexer_identify_word :: "Token gen \<Rightarrow> Token gen" where
  "lexer_identify_word tokens = identify_word_tokens (fst tokens) (snd tokens)"

text \<open>\<^verbatim>\<open>Lexer.lexer_remove_unuseful\<close>.\<close>

fun remove_unuseful_tokens :: "Token list \<Rightarrow> error option \<Rightarrow> Token gen" where
  "remove_unuseful_tokens [] e = ([], e)"
| "remove_unuseful_tokens (token # tokens) e =
     gen_then
       (if type token = SPACE \<or> type token = COMMENT \<or> type token = NEWLINE then ([], None)
        else ([token], None))
       (remove_unuseful_tokens tokens e)"

definition lexer_remove_unuseful :: "Token gen \<Rightarrow> Token gen" where
  "lexer_remove_unuseful tokens = remove_unuseful_tokens (fst tokens) (snd tokens)"

text \<open>
  \<^verbatim>\<open>Lexer._lexer\<close>, which \<^verbatim>\<open>Lexer.lexer\<close> delegates to, under the limit of the
  interpreter on the nesting of \<^verbatim>\<open>yield_tokens\<close>.
\<close>

definition lexer :: "nat \<Rightarrow> string \<Rightarrow> Token gen" where
  "lexer limit src =
     lexer_remove_unuseful
       (lexer_identify_word
          (lexer_extract_operator limit
             (lexer_by_tokens src)))"

section \<open>AST nodes (zergb/parser.py)\<close>

text \<open>
  An \<^verbatim>\<open>ASTNode\<close> is a mutable object: \<^verbatim>\<open>__add__\<close> changes both operands in place, and
  \<^verbatim>\<open>is_latest\<close> compares nodes by identity. Objects live in a heap, a list of nodes; a
  reference is the position of its node, and a new object goes to the end of the list.
  A reference that a program holds is always the position of a node of the heap; the
  theorems about given nodes assume it.
\<close>

type_synonym ref = nat

record ASTNode =
  token :: Token
  parent :: "ref option"
  childs :: "ref list"

type_synonym heap = "ASTNode list"

text \<open>
  \<^verbatim>\<open>ASTNode.__init__\<close>. A \<^verbatim>\<open>Token\<close> defines neither \<^verbatim>\<open>__bool__\<close> nor \<^verbatim>\<open>__len__\<close>, so
  \<^verbatim>\<open>token or Token('.', tt=TokenType.ROOT)\<close> takes the default only for \<^verbatim>\<open>None\<close>.
\<close>

definition ASTNode_init :: "Token option \<Rightarrow> ASTNode" where
  "ASTNode_init tok =
     \<lparr>token = (case tok of None \<Rightarrow> Token ''.'' ROOT | Some t \<Rightarrow> t),
      parent = None,
      childs = []\<rparr>"

definition new_ASTNode :: "heap \<Rightarrow> Token option \<Rightarrow> heap \<times> ref" where
  "new_ASTNode h tok = (h @ [ASTNode_init tok], length h)"

text \<open>\<^verbatim>\<open>ASTNode.__add__\<close>: the two assignments in order, then \<^verbatim>\<open>return self\<close>.\<close>

definition ASTNode_add :: "heap \<Rightarrow> ref \<Rightarrow> ref \<Rightarrow> heap \<times> ref" where
  "ASTNode_add h self other =
     (let h1 = h[self := (h ! self)\<lparr>childs := childs (h ! self) @ [other]\<rparr>];
          h2 = h1[other := (h1 ! other)\<lparr>parent := Some self\<rparr>]
      in (h2, self))"

text \<open>\<^verbatim>\<open>ASTNode.__contains__\<close>: list membership, by identity as no \<^verbatim>\<open>__eq__\<close> is defined.\<close>

definition ASTNode_contains :: "heap \<Rightarrow> ref \<Rightarrow> ref \<Rightarrow> bool" where
  "ASTNode_contains h self item \<longleftrightarrow> item \<in> set (childs (h ! self))"








section \<open>Parser (zergb/parser.py)\<close>

text \<open>
  The state the parser works on: the generator \<^verbatim>\<open>self._tokens\<close> (the tokens it has yet to
  yield, and how it ends), the list \<^verbatim>\<open>self._token_stack\<close>, and the heap of the nodes
  built so far.
\<close>

record state =
  tokens :: "Token gen"
  token_stack :: "Token list"
  heap :: heap

text \<open>
  The getter of the property \<^verbatim>\<open>next_token\<close>: \<^verbatim>\<open>pop()\<close> takes the last element of the
  stack; \<^verbatim>\<open>next(self._tokens)\<close> on a generator that has returned raises
  \<^verbatim>\<open>StopIteration\<close>, and nothing in the parser catches it.
\<close>

definition next_token :: "state \<Rightarrow> error + Token \<times> state" where
  "next_token st =
     (if token_stack st \<noteq> [] then
        Inr (last (token_stack st), st\<lparr>token_stack := butlast (token_stack st)\<rparr>)
      else
        (case fst (tokens st) of
           t # ts \<Rightarrow> Inr (t, st\<lparr>tokens := (ts, snd (tokens st))\<rparr>)
         | [] \<Rightarrow> Inl (case snd (tokens st) of None \<Rightarrow> StopIteration | Some e \<Rightarrow> e)))"

text \<open>The setter of \<^verbatim>\<open>next_token\<close>: \<^verbatim>\<open>append\<close>.\<close>

definition set_next_token :: "Token \<Rightarrow> state \<Rightarrow> state" where
  "set_next_token v st = st\<lparr>token_stack := token_stack st @ [v]\<rparr>"

text \<open>\<^verbatim>\<open>ASTNode(tok)\<close> and the statement \<^verbatim>\<open>self + other\<close>, on the heap of the state.\<close>

definition new_node :: "Token option \<Rightarrow> state \<Rightarrow> ref \<times> state" where
  "new_node tok st = (length (heap st), st\<lparr>heap := fst (new_ASTNode (heap st) tok)\<rparr>)"

definition add_node :: "ref \<Rightarrow> ref \<Rightarrow> state \<Rightarrow> state" where
  "add_node self other st = st\<lparr>heap := fst (ASTNode_add (heap st) self other)\<rparr>"

text \<open>
  \<^verbatim>\<open>Parser._parse_func_args\<close> raises \<^verbatim>\<open>NotImplementedError\<close>. The class defines no
  \<^verbatim>\<open>_parse_type_hint\<close>, so the attribute lookup in \<^verbatim>\<open>_parse_func_head\<close> raises
  \<^verbatim>\<open>AttributeError\<close>.
\<close>

definition parse_func_args :: "Token \<Rightarrow> state \<Rightarrow> error + ref \<times> state" where
  "parse_func_args prev st = Inl NotImplementedError"

definition parse_type_hint :: "Token \<Rightarrow> state \<Rightarrow> error + ref \<times> state" where
  "parse_type_hint prev st =
     Inl (AttributeError ''_parse_type_hint'')"

text \<open>\<^verbatim>\<open>Parser._parse_func_head\<close>.\<close>

definition parse_func_head :: "state \<Rightarrow> error + ref \<times> state" where
  "parse_func_head st =
     (case next_token st of
        Inl e \<Rightarrow> Inl e
      | Inr (name, st1) \<Rightarrow>
          if type name \<noteq> NAME then
            Inl (ValueError (''function should follow with name: name='' @ Token_str name))
          else
            (case new_node (Some name) st1 of (node, st2) \<Rightarrow>
             (case next_token st2 of
                Inl e \<Rightarrow> Inl e
              | Inr (prev, st3) \<Rightarrow>
                  if type prev \<noteq> LPARENTHESES then
                    Inl (ValueError (''function should follow with (): prev='' @ Token_str prev))
                  else
                    (case next_token st3 of
                       Inl e \<Rightarrow> Inl e
                     | Inr (prev, st4) \<Rightarrow>
                         (case (if type prev = RPARENTHESES then Inr st4
                                else (case parse_func_args prev st4 of
                                        Inl e \<Rightarrow> Inl e
                                      | Inr (args, st5) \<Rightarrow> Inr (add_node node args st5))) of
                            Inl e \<Rightarrow> Inl e
                          | Inr st6 \<Rightarrow>
                              (case next_token st6 of
                                 Inl e \<Rightarrow> Inl e
                               | Inr (prev, st7) \<Rightarrow>
                                   if type prev = ARROW then
                                     (case parse_type_hint prev st7 of
                                        Inl e \<Rightarrow> Inl e
                                      | Inr (hint, st8) \<Rightarrow> Inr (node, add_node node hint st8))
                                   else Inr (node, set_next_token prev st7)))))))"

text \<open>
  The number of tokens the parser can still read. It is the measure under which the
  recursion of the parser ends.
\<close>

definition pending :: "state \<Rightarrow> nat" where
  "pending st = length (fst (tokens st)) + length (token_stack st)"

lemma pending_next_token: "next_token st = Inr (t, st') \<Longrightarrow> Suc (pending st') = pending st"
  by (auto simp: next_token_def pending_def split: if_splits list.splits)

lemma pending_set_next_token: "pending (set_next_token v st) = Suc (pending st)"
  by (simp add: set_next_token_def pending_def)

lemma pending_new_node: "(n, st') = new_node tok st \<Longrightarrow> pending st' = pending st"
  by (auto simp: new_node_def pending_def)

lemma pending_add_node: "pending (add_node a b st) = pending st"
  by (simp add: add_node_def pending_def)

lemma pending_parse_func_head:
  "parse_func_head st = Inr (node, st') \<Longrightarrow> pending st' < pending st"
  unfolding parse_func_head_def parse_func_args_def parse_type_hint_def
  by (auto split: sum.splits prod.splits if_splits
      dest!: pending_next_token pending_new_node [OF sym] simp: pending_set_next_token)

text \<open>
  \<^verbatim>\<open>Parser._parse_source\<close>, \<^verbatim>\<open>_parse_scope\<close>, \<^verbatim>\<open>_parse_block\<close> and
  \<^verbatim>\<open>_parse_func_stmt\<close>, which call each other.
\<close>

function parse_source :: "state \<Rightarrow> error + ref \<times> state"
  and parse_scope :: "state \<Rightarrow> error + ref \<times> state"
  and parse_block :: "Token \<Rightarrow> state \<Rightarrow> error + ref \<times> state"
  and parse_func_stmt :: "Token \<Rightarrow> state \<Rightarrow> error + ref \<times> state" where
  "parse_source st =
     (case new_node None st of (root, st1) \<Rightarrow>
      (case next_token st1 of
         Inl e \<Rightarrow> Inl e
       | Inr (prev, st2) \<Rightarrow>
           if type prev = RBRACE then Inr (root, set_next_token prev st2)
           else
             (case parse_block prev st2 of
                Inl e \<Rightarrow> Inl e
              | Inr (node, st3) \<Rightarrow> Inr (root, add_node root node st3))))"
| "parse_scope st =
     (case next_token st of
        Inl e \<Rightarrow> Inl e
      | Inr (prev, st1) \<Rightarrow>
          if type prev \<noteq> LBRACE then
            Inl (ValueError (''expecting {, but got prev='' @ Token_str prev))
          else
            (case parse_source st1 of
               Inl e \<Rightarrow> Inl e
             | Inr (node, st2) \<Rightarrow>
                 (case next_token st2 of
                    Inl e \<Rightarrow> Inl e
                  | Inr (prev, st3) \<Rightarrow>
                      if type prev \<noteq> RBRACE then
                        Inl (ValueError (''expecting } but got prev='' @ Token_str prev))
                      else Inr (node, st3))))"
| "parse_block prev st =
     (if type prev = NOP then
        (case new_node (Some prev) st of (node, st1) \<Rightarrow> Inr (node, st1))
      else if type prev = FN then parse_func_stmt prev st
      else Inl (ValueError (''Unexpected token: '' @ Token_str prev)))"
| "parse_func_stmt prev st =
     (if type prev \<noteq> FN then Inl AssertionError
      else
        (case new_node (Some prev) st of (node, st1) \<Rightarrow>
         (case parse_func_head st1 of
            Inl e \<Rightarrow> Inl e
          | Inr (head, st2) \<Rightarrow>
              (case parse_scope (add_node node head st2) of
                 Inl e \<Rightarrow> Inl e
               | Inr (body, st3) \<Rightarrow> Inr (node, add_node node body st3)))))"
  by pat_completeness auto
termination
  apply (relation "measure (\<lambda>x. case x of
            Inl (Inl st) \<Rightarrow> 2 * pending st
          | Inl (Inr st) \<Rightarrow> 2 * pending st
          | Inr (Inl (prev, st)) \<Rightarrow> 2 * pending st + 1
          | Inr (Inr (prev, st)) \<Rightarrow> 2 * pending st)")
  apply (auto dest!: pending_next_token pending_new_node pending_parse_func_head
      simp: pending_add_node)
  done

declare parse_source.simps [simp del] parse_scope.simps [simp del]
  parse_block.simps [simp del] parse_func_stmt.simps [simp del]

text \<open>\<^verbatim>\<open>Parser.parse\<close>, under the same limit as \<open>lexer\<close>.\<close>

definition parse :: "nat \<Rightarrow> string \<Rightarrow> error + ref \<times> state" where
  "parse limit src = parse_source \<lparr>tokens = lexer limit src, token_stack = [], heap = []\<rparr>"

section \<open>Notions used in the statements and proofs\<close>



text \<open>
  \<open>allocates st n st'\<close>: between the states \<open>st\<close> and \<open>st'\<close> the node \<open>n\<close> was created, and
  the nodes that \<open>st\<close> already had are unchanged.
\<close>

definition allocates :: "state \<Rightarrow> ref \<Rightarrow> state \<Rightarrow> bool" where
  "allocates st n st' \<longleftrightarrow>
     length (heap st) \<le> n \<and> n < length (heap st')
     \<and> (\<forall>r < length (heap st). heap st' ! r = heap st ! r)"

text \<open>The state \<open>st\<close> with the tokens \<open>ts\<close> added to the end of its stream, which then ends as \<open>e\<close>.\<close>

definition more_tokens :: "Token list \<Rightarrow> error option \<Rightarrow> state \<Rightarrow> state" where
  "more_tokens ts e st = st\<lparr>tokens := (fst (tokens st) @ ts, e)\<rparr>"

section \<open>Properties of the lexer\<close>

lemma snd_gen_then: "snd (gen_then g h) = None \<longleftrightarrow> snd g = None \<and> snd h = None"
  by (simp add: gen_then_def split: option.splits)

lemma fst_gen_then: "snd g = None \<Longrightarrow> fst (gen_then g h) = fst g @ fst h"
  by (simp add: gen_then_def)

lemma snd_gen_then_cases:
  "snd (gen_then g h) = (case snd g of None \<Rightarrow> snd h | Some e \<Rightarrow> Some e)"
  by (simp add: gen_then_def split: option.splits)

lemma gen_then_cong_limit:
  assumes "snd (gen_then g h) \<noteq> Some RecursionError"
    and "snd g \<noteq> Some RecursionError \<Longrightarrow> g' = g"
    and "snd g = None \<Longrightarrow> snd h \<noteq> Some RecursionError \<Longrightarrow> h' = h"
  shows "gen_then g' h' = gen_then g h"
  using assms by (cases "snd g") (auto simp: gen_then_def)

lemma set_OPERATORS:
  "set OPERATORS = {CHR ''+'', CHR ''-'', CHR ''*'', CHR ''/'', CHR ''%'', CHR ''<'', CHR ''>'',
     CHR ''&'', CHR ''|'', CHR ''!'', CHR ''^'', CHR ''~'', CHR ''('', CHR '')'', CHR ''{'',
     CHR ''}'', CHR ''['', CHR '']''}"
  by (simp add: OPERATORS_def)

lemma TokenType_of_operator: "c \<in> set OPERATORS \<Longrightarrow> \<exists>tt. TokenType_of [c] = Some tt"
  unfolding set_OPERATORS by (auto simp: TokenType_of_def literals_def)

lemma TokenType_of_Nil: "TokenType_of [] = None"
  by (simp add: TokenType_of_def literals_def)

lemma yield_tokens_operators:
  "rw \<noteq> [] \<Longrightarrow> set rw \<subseteq> set OPERATORS \<Longrightarrow> length rw \<le> limit \<Longrightarrow>
   snd (yield_tokens limit rw) = None
   \<and> concat (map raw (fst (yield_tokens limit rw))) = rw
   \<and> (\<forall>t \<in> set (fst (yield_tokens limit rw)). TokenType_of (raw t) = Some (type t))"
proof (induction limit arbitrary: rw)
  case 0
  then show ?case by simp
next
  case (Suc depth)
  show ?case
  proof (cases "TokenType_of rw")
    case (Some tt)
    then show ?thesis by (simp add: Token_def)
  next
    case None
    from Suc.prems obtain first remains where rw: "rw = first # remains"
      by (cases rw) auto
    with Suc.prems obtain tt where tt: "TokenType_of [first] = Some tt"
      using TokenType_of_operator by auto
    with None rw have ne: "remains \<noteq> []" by auto
    from Suc.prems rw have sub: "set remains \<subseteq> set OPERATORS" and len: "length remains \<le> depth"
      by auto
    note ih = Suc.IH [OF ne sub len]
    have "yield_tokens (Suc depth) rw = gen_then ([Token [first] tt], None) (yield_tokens depth remains)"
      using None rw tt by simp
    with ih rw tt show ?thesis by (simp add: snd_gen_then fst_gen_then Token_def)
  qed
qed

lemma yield_tokens_error:
  "rw \<noteq> [] \<Longrightarrow> set rw \<subseteq> set OPERATORS \<Longrightarrow>
   snd (yield_tokens limit rw) = None \<or> snd (yield_tokens limit rw) = Some RecursionError"
proof (induction limit arbitrary: rw)
  case 0
  then show ?case by simp
next
  case (Suc depth)
  show ?case
  proof (cases "TokenType_of rw")
    case (Some tt)
    then show ?thesis by simp
  next
    case None
    from Suc.prems obtain first remains where rw: "rw = first # remains"
      by (cases rw) auto
    with Suc.prems obtain tt where tt: "TokenType_of [first] = Some tt"
      using TokenType_of_operator by auto
    with None rw have ne: "remains \<noteq> []" by auto
    from Suc.prems rw have sub: "set remains \<subseteq> set OPERATORS" by auto
    note ih = Suc.IH [OF ne sub]
    have "yield_tokens (Suc depth) rw = gen_then ([Token [first] tt], None) (yield_tokens depth remains)"
      using None rw tt by simp
    with ih show ?thesis by (auto simp: snd_gen_then_cases)
  qed
qed

lemma yield_tokens_mono:
  "snd (yield_tokens d rw) \<noteq> Some RecursionError \<Longrightarrow> d \<le> d' \<Longrightarrow>
   yield_tokens d' rw = yield_tokens d rw"
proof (induction d arbitrary: rw d')
  case 0
  then show ?case by simp
next
  case (Suc d)
  from Suc.prems obtain e where d': "d' = Suc e" and le: "d \<le> e" by (cases d') auto
  show ?case
  proof (cases "TokenType_of rw")
    case (Some tt)
    then show ?thesis by (simp add: d')
  next
    case None
    show ?thesis
    proof (cases rw)
      case Nil
      with None show ?thesis by (simp add: d')
    next
      case (Cons first remains)
      show ?thesis
      proof (cases "TokenType_of [first]")
        case n: None
        with None Cons show ?thesis by (simp add: d')
      next
        case (Some tt)
        with None Cons Suc.prems(1) have "snd (yield_tokens d remains) \<noteq> Some RecursionError"
          by (simp add: snd_gen_then_cases)
        from Suc.IH [OF this le] None Cons Some show ?thesis by (simp add: d')
      qed
    qed
  qed
qed

lemma extract_operator_raw_returns:
  "set operators \<subseteq> set OPERATORS \<Longrightarrow> length operators + length cs \<le> limit \<Longrightarrow>
   snd (extract_operator_raw limit cs remains operators) = None"
proof (induction cs arbitrary: remains operators)
  case Nil
  then show ?case by (simp add: snd_gen_then yield_tokens_operators del: yield_tokens.simps)
next
  case (Cons tt rest)
  show ?case
  proof (cases "tt \<in> set OPERATORS")
    case True
    with Cons.prems have "set (operators @ [tt]) \<subseteq> set OPERATORS"
      and "length (operators @ [tt]) + length rest \<le> limit" by simp_all
    then have "snd (extract_operator_raw limit rest [] (operators @ [tt])) = None" by (rule Cons.IH)
    with True show ?thesis by (simp add: snd_gen_then del: yield_tokens.simps)
  next
    case False
    have "snd (extract_operator_raw limit rest (remains @ [tt]) []) = None"
      using Cons.prems by (intro Cons.IH) simp_all
    with False Cons.prems show ?thesis
      by (simp add: snd_gen_then yield_tokens_operators del: yield_tokens.simps)
  qed
qed

lemma extract_operator_raw_error:
  "set operators \<subseteq> set OPERATORS \<Longrightarrow>
   snd (extract_operator_raw limit cs remains operators) = None
   \<or> snd (extract_operator_raw limit cs remains operators) = Some RecursionError"
proof (induction cs arbitrary: remains operators)
  case Nil
  then show ?case
    using yield_tokens_error [of operators limit]
    by (auto simp: snd_gen_then_cases simp del: yield_tokens.simps)
next
  case (Cons tt rest)
  show ?case
  proof (cases "tt \<in> set OPERATORS")
    case True
    with Cons.prems have "set (operators @ [tt]) \<subseteq> set OPERATORS" by simp
    from Cons.IH [OF this, of "[]"] True show ?thesis
      by (auto simp: snd_gen_then_cases simp del: yield_tokens.simps)
  next
    case False
    from Cons.IH [of "[]" "remains @ [tt]"] False Cons.prems
      yield_tokens_error [of operators limit]
    show ?thesis
      by (auto simp: snd_gen_then_cases simp del: yield_tokens.simps split: option.splits)
  qed
qed

lemma extract_operator_raw_mono:
  "snd (extract_operator_raw d cs remains operators) \<noteq> Some RecursionError \<Longrightarrow> d \<le> d' \<Longrightarrow>
   extract_operator_raw d' cs remains operators = extract_operator_raw d cs remains operators"
proof (induction cs arbitrary: remains operators)
  case Nil
  then show ?case
    by (auto simp del: yield_tokens.simps intro!: gen_then_cong_limit yield_tokens_mono)
next
  case (Cons tt rest)
  show ?case
  proof (cases "tt \<in> set OPERATORS")
    case True
    with Cons.prems Cons.IH show ?thesis
      by (auto simp del: yield_tokens.simps intro!: gen_then_cong_limit)
  next
    case False
    with Cons.prems Cons.IH show ?thesis
      by (auto simp del: yield_tokens.simps intro!: gen_then_cong_limit yield_tokens_mono)
  qed
qed

lemma extract_operator_tokens_returns:
  "\<forall>t \<in> set ts. length (raw t) \<le> limit \<Longrightarrow> snd (extract_operator_tokens limit ts None) = None"
  by (induction ts) (simp_all add: snd_gen_then extract_operator_raw_returns)

lemma extract_operator_tokens_error:
  "snd (extract_operator_tokens limit ts None) = None
   \<or> snd (extract_operator_tokens limit ts None) = Some RecursionError"
proof (induction ts)
  case Nil
  then show ?case by simp
next
  case (Cons t ts)
  from Cons extract_operator_raw_error [of "[]" limit "raw t" "[]"] show ?case
    by (auto simp: snd_gen_then_cases split: option.splits)
qed

lemma extract_operator_tokens_mono:
  "snd (extract_operator_tokens d ts e) \<noteq> Some RecursionError \<Longrightarrow> d \<le> d' \<Longrightarrow>
   extract_operator_tokens d' ts e = extract_operator_tokens d ts e"
proof (induction ts)
  case Nil
  then show ?case by simp
next
  case (Cons t ts)
  then show ?case
    by (auto intro!: gen_then_cong_limit extract_operator_raw_mono)
qed

lemma identify_word_tokens_returns: "snd (identify_word_tokens ts e) = e"
  by (induction ts) (simp_all add: gen_then_def split: option.splits)

lemma remove_unuseful_tokens_returns: "snd (remove_unuseful_tokens ts e) = e"
  by (induction ts) (simp_all add: gen_then_def split: option.splits)

lemma remove_unuseful_tokens_type:
  "t \<in> set (fst (remove_unuseful_tokens ts e)) \<Longrightarrow>
   type t \<noteq> SPACE \<and> type t \<noteq> COMMENT \<and> type t \<noteq> NEWLINE"
  by (induction ts) (auto simp: gen_then_def remove_unuseful_tokens_returns split: if_splits)

lemma snd_lexer:
  "snd (lexer limit src) = snd (extract_operator_tokens limit (lexer_by_tokens_from src 0) None)"
  by (simp add: lexer_def lexer_remove_unuseful_def lexer_identify_word_def
      lexer_extract_operator_def lexer_by_tokens_def remove_unuseful_tokens_returns
      identify_word_tokens_returns)

lemma lexer_error: "snd (lexer limit src) = None \<or> snd (lexer limit src) = Some RecursionError"
  unfolding snd_lexer by (rule extract_operator_tokens_error)

lemma lexer_mono:
  assumes "snd (lexer d src) \<noteq> Some RecursionError" and "d \<le> d'"
  shows "lexer d' src = lexer d src"
proof -
  from assms(1) have "snd (extract_operator_tokens d (lexer_by_tokens_from src 0) None)
      \<noteq> Some RecursionError" by (simp add: snd_lexer)
  from extract_operator_tokens_mono [OF this assms(2)] show ?thesis
    by (simp add: lexer_def lexer_extract_operator_def lexer_by_tokens_def)
qed

lemma length_slice: "length (slice src i j) \<le> length src"
  by (simp add: slice_def)

lemma scan_all: "\<forall>j. stop \<le> j \<and> j < length src \<longrightarrow> P (src ! j) \<Longrightarrow> stop \<le> length src \<Longrightarrow>
  scan P src stop = length src"
proof (induction P src stop rule: scan.induct)
  case (1 P src stop)
  show ?case
  proof (cases "stop < length src")
    case True
    with "1.prems" have p: "P (src ! stop)" by simp
    with True "1.IH" "1.prems" have "scan P src (stop + 1) = length src" by simp
    with True p show ?thesis by (subst scan.simps) simp
  next
    case False
    with "1.prems" show ?thesis by (subst scan.simps) simp
  qed
qed

lemma extract_operator_raw_operators:
  "set cs \<subseteq> set OPERATORS \<Longrightarrow> operators @ cs \<noteq> [] \<Longrightarrow>
   extract_operator_raw limit cs [] operators = yield_tokens limit (operators @ cs)"
proof (induction cs arbitrary: operators)
  case Nil
  then show ?case by (simp add: gen_then_def del: yield_tokens.simps)
next
  case (Cons c cs)
  then show ?case by (simp add: gen_then_def del: yield_tokens.simps)
qed

lemma TokenType_of_parens: "TokenType_of (CHR ''('' # CHR ''('' # cs) = None"
  by (simp add: TokenType_of_def literals_def)

lemma yield_tokens_parens:
  "limit < n \<Longrightarrow> snd (yield_tokens limit (replicate n (CHR ''(''))) = Some RecursionError"
proof (induction limit arbitrary: n)
  case 0
  then show ?case by simp
next
  case (Suc depth)
  then obtain m where n: "n = Suc (Suc m)" by (cases n; cases "n - 1") auto
  from Suc.prems n have "depth < Suc m" by simp
  from Suc.IH [OF this] have ih: "snd (yield_tokens depth (replicate (Suc m) (CHR ''(''))) = Some RecursionError" .
  have one: "TokenType_of [CHR ''(''] = Some LPARENTHESES"
    by (simp add: TokenType_of_def literals_def)
  have "yield_tokens (Suc depth) (replicate n (CHR ''('')) =
      gen_then ([Token [CHR ''(''] LPARENTHESES], None) (yield_tokens depth (replicate (Suc m) (CHR ''('')))"
    unfolding n by (simp add: TokenType_of_parens one)
  with ih show ?case by (simp add: snd_gen_then_cases del: yield_tokens.simps replicate.simps)
qed

lemma lexer_by_tokens_from_parens:
  "0 < n \<Longrightarrow> lexer_by_tokens_from (replicate n (CHR ''('')) 0 = [Token (replicate n (CHR ''('')) UNKNOWN]"
proof -
  assume n: "0 < n"
  let ?src = "replicate n (CHR ''('')"
  have sc: "scan (\<lambda>c. c \<noteq> CHR '' '' \<and> c \<noteq> CHR 0x09 \<and> c \<noteq> CHR 0x0A) ?src 0 = n"
    using scan_all [of 0 ?src "\<lambda>c. c \<noteq> CHR '' '' \<and> c \<noteq> CHR 0x09 \<and> c \<noteq> CHR 0x0A"]
    by simp
  have fin: "lexer_by_tokens_from ?src n = []"
    by (subst lexer_by_tokens_from.simps) simp
  from n have m: "n - Suc 0 + 1 = n" by simp
  have "lexer_by_tokens_from ?src 0 =
      Token (slice ?src 0 n) UNKNOWN # lexer_by_tokens_from ?src (n - 1 + 1)"
    using n by (subst lexer_by_tokens_from.simps) (simp add: Let_def tab_def newline_def sc)
  with m fin show ?thesis by (simp add: slice_def)
qed

lemma lexer_parens:
  assumes "limit < n"
  shows "snd (lexer limit (replicate n (CHR ''(''))) = Some RecursionError"
proof -
  from assms have n: "0 < n" by simp
  have "extract_operator_raw limit (replicate n (CHR ''('')) [] []
      = yield_tokens limit (replicate n (CHR ''(''))"
    using extract_operator_raw_operators [of "replicate n (CHR ''('')" "[]" limit] n
    by (simp add: OPERATORS_def)
  with yield_tokens_parens [OF assms] show ?thesis
    by (simp add: snd_lexer lexer_by_tokens_from_parens [OF n] Token_def snd_gen_then_cases
        del: yield_tokens.simps replicate.simps)
qed

lemma lexer_by_tokens_from_length:
  "t \<in> set (lexer_by_tokens_from src index) \<Longrightarrow> length (raw t) \<le> length src"
proof (induction src index arbitrary: t rule: lexer_by_tokens_from.induct)
  case (1 src index)
  show ?case
  proof (cases "index < length src")
    case False
    then have "lexer_by_tokens_from src index = []"
      by (subst lexer_by_tokens_from.simps) simp
    with "1.prems" show ?thesis by simp
  next
    case lt: True
    then have one: "Suc 0 \<le> length src" by simp
    define tt where "tt = src ! index"
    consider (nl) "tt = newline"
      | (comment) "tt \<noteq> newline" "tt = CHR ''/''"
          "index + 1 < length src \<and> src ! (index + 1) = CHR ''/''"
      | (slash) "tt \<noteq> newline" "tt = CHR ''/''"
          "\<not> (index + 1 < length src \<and> src ! (index + 1) = CHR ''/'')"
      | (space) "tt \<noteq> newline" "tt \<noteq> CHR ''/''" "tt = CHR '' '' \<or> tt = tab"
      | (string) "tt \<noteq> newline" "tt \<noteq> CHR ''/''" "\<not> (tt = CHR '' '' \<or> tt = tab)"
          "tt = CHR 0x22"
      | (other) "tt \<noteq> newline" "tt \<noteq> CHR ''/''" "\<not> (tt = CHR '' '' \<or> tt = tab)"
          "tt \<noteq> CHR 0x22"
      by blast
    then show ?thesis
    proof cases
      case nl
      have "lexer_by_tokens_from src index =
          Token [tt] NEWLINE # lexer_by_tokens_from src (index + 1)"
        using lt nl by (subst lexer_by_tokens_from.simps) (simp add: tt_def Let_def)
      with "1.prems" "1.IH"(1) [OF lt tt_def nl] one show ?thesis
        by (auto simp: Token_def)
    next
      case comment
      define stop where "stop = scan (\<lambda>c. c \<noteq> newline) src (index + 2)"
      have "lexer_by_tokens_from src index =
          Token (slice src index stop) COMMENT # lexer_by_tokens_from src (stop + 1)"
        using lt comment
        by (subst lexer_by_tokens_from.simps) (simp add: tt_def stop_def Let_def)
      with "1.prems" "1.IH"(2) [OF lt tt_def comment stop_def] show ?thesis
        by (auto simp: Token_def length_slice)
    next
      case slash
      have "lexer_by_tokens_from src index =
          Token [tt] UNKNOWN # lexer_by_tokens_from src (index + 1)"
        using lt slash by (subst lexer_by_tokens_from.simps) (auto simp: tt_def Let_def)
      with "1.prems" "1.IH"(3) [OF lt tt_def slash] one show ?thesis
        by (auto simp: Token_def)
    next
      case space
      define stop where "stop = scan (\<lambda>c. c \<in> set [CHR '' '', tab]) src (index + 1)"
      have "lexer_by_tokens_from src index =
          Token (slice src index stop) SPACE # lexer_by_tokens_from src (stop - 1 + 1)"
        using lt space
        by (subst lexer_by_tokens_from.simps) (auto simp: tt_def stop_def Let_def)
      with "1.prems" "1.IH"(4) [OF lt tt_def space stop_def] show ?thesis
        by (auto simp: Token_def length_slice)
    next
      case string
      define stop where "stop = scan (\<lambda>c. c \<noteq> CHR 0x22) src (index + 1)"
      have "lexer_by_tokens_from src index =
          Token (slice src index (stop + 1)) STRING # lexer_by_tokens_from src (stop + 1)"
        using lt string
        by (subst lexer_by_tokens_from.simps) (auto simp: tt_def stop_def Let_def)
      with "1.prems" "1.IH"(5) [OF lt tt_def string stop_def] show ?thesis
        by (auto simp: Token_def length_slice)
    next
      case other
      define stop where "stop = scan (\<lambda>c. c \<notin> set [CHR '' '', tab, newline]) src index"
      have "lexer_by_tokens_from src index =
          Token (slice src index stop) UNKNOWN # lexer_by_tokens_from src (stop - 1 + 1)"
        using lt other
        by (subst lexer_by_tokens_from.simps) (auto simp: tt_def stop_def Let_def)
      with "1.prems" "1.IH"(6) [OF lt tt_def other stop_def] show ?thesis
        by (auto simp: Token_def length_slice)
    qed
  qed
qed

lemma lexer_returns:
  assumes "length src \<le> limit"
  shows "snd (lexer limit src) = None"
proof -
  have "\<forall>t \<in> set (lexer_by_tokens_from src 0). length (raw t) \<le> limit"
    using lexer_by_tokens_from_length assms by (meson le_trans)
  then show ?thesis unfolding snd_lexer by (rule extract_operator_tokens_returns)
qed

lemma yield_tokens_first_spelling:
  assumes "set rw \<subseteq> set OPERATORS" and "k < length rw" and "k < limit"
    and "TokenType_of (drop k rw) = Some tt"
    and "\<forall>j<k. TokenType_of (drop j rw) = None"
  shows "yield_tokens limit rw =
     (map (\<lambda>c. Token [c] (the (TokenType_of [c]))) (take k rw) @ [Token (drop k rw) tt], None)"
  using assms
proof (induction k arbitrary: rw limit)
  case 0
  then obtain depth where "limit = Suc depth" by (cases limit) auto
  with 0 show ?case by simp
next
  case (Suc k)
  from Suc.prems obtain depth where limit: "limit = Suc depth" and k: "k < depth"
    by (cases limit) auto
  from Suc.prems obtain first remains where rw: "rw = first # remains" by (cases rw) auto
  from Suc.prems have whole: "TokenType_of rw = None" by force
  from Suc.prems(1) rw have "first \<in> set OPERATORS" by simp
  then obtain t1 where t1: "TokenType_of [first] = Some t1"
    using TokenType_of_operator by blast
  have later: "\<forall>j<k. TokenType_of (drop j remains) = None"
  proof (intro allI impI)
    fix j assume "j < k"
    then have "Suc j < Suc k" by simp
    with Suc.prems(5) have "TokenType_of (drop (Suc j) rw) = None" by blast
    then show "TokenType_of (drop j remains) = None" by (simp add: rw)
  qed
  from Suc.prems rw have "set remains \<subseteq> set OPERATORS" "k < length remains"
    "TokenType_of (drop k remains) = Some tt" by auto
  from Suc.IH [OF this(1,2) k this(3) later]
  have "yield_tokens depth remains =
     (map (\<lambda>c. Token [c] (the (TokenType_of [c]))) (take k remains) @ [Token (drop k remains) tt], None)" .
  with whole t1 show ?case by (simp add: limit rw gen_then_def)
qed

text \<open>
  Claim C1 (source defect): the raw texts of the tokens of \<open>lexer_by_tokens\<close> do not always
  concatenate to the source. After a comment the loop sets \<^verbatim>\<open>index = stop\<close>, the position
  of the newline that ended the comment, and the \<^verbatim>\<open>index += 1\<close> that follows steps over
  that newline: it is in no token. On the four characters slash, slash, newline, \<open>b\<close> the
  tokens are the comment and \<open>b\<close>, with no newline token between them.
\<close>

theorem lexer_by_tokens_comment_newline:
  "lexer_by_tokens (''//'' @ [newline] @ ''b'') = ([Token ''//'' COMMENT, Token ''b'' UNKNOWN], None)
   \<and> concat (map raw (fst (lexer_by_tokens (''//'' @ [newline] @ ''b'')))) = ''//b''
   \<and> concat (map raw (fst (lexer_by_tokens (''//'' @ [newline] @ ''b'')))) \<noteq> ''//'' @ [newline] @ ''b''"
  by code_simp

text \<open>
  Claim C4 (as amended): for every source string and every limit on the nesting of
  \<open>yield_tokens\<close>, the four stages of \<open>lexer\<close> end (the functions of the model are total, so
  the token list is finite) and raise nothing but \<open>RecursionError\<close>. They raise nothing
  when the limit is at least the length of the source. Every character of \<open>OPERATORS\<close> is
  the value of a member of \<open>TokenType\<close>, and on a run of such characters that is not
  empty and not longer than the limit \<open>yield_tokens\<close> raises nothing and yields tokens
  that spell the run, each of the type whose value is its raw text. A run of \<open>n\<close> opening
  parentheses under a limit below \<open>n\<close> makes \<open>lexer\<close> raise \<open>RecursionError\<close>.
\<close>

theorem lexer_raises_only_RecursionError:
  "(snd (lexer limit src) = None \<or> snd (lexer limit src) = Some RecursionError)
   \<and> (length src \<le> limit \<longrightarrow> snd (lexer limit src) = None)
   \<and> (\<forall>c \<in> set OPERATORS. \<exists>tt. TokenType_of [c] = Some tt)
   \<and> (\<forall>ops. ops \<noteq> [] \<and> set ops \<subseteq> set OPERATORS \<and> length ops \<le> limit \<longrightarrow>
         snd (yield_tokens limit ops) = None
         \<and> concat (map raw (fst (yield_tokens limit ops))) = ops
         \<and> (\<forall>t \<in> set (fst (yield_tokens limit ops)). TokenType_of (raw t) = Some (type t)))
   \<and> (limit < n \<longrightarrow> snd (lexer limit (replicate n (CHR ''(''))) = Some RecursionError)"
  using lexer_error [of limit src] lexer_returns [of src limit] TokenType_of_operator
    yield_tokens_operators [of _ limit] lexer_parens [of limit n]
  by blast

theorem lexer_raises_only_RecursionError_witness:
  "length ''a+-(b'' \<le> (5::nat) \<and> snd (lexer 5 ''a+-(b'') = None
   \<and> CHR ''+'' \<in> set OPERATORS \<and> (\<exists>tt. TokenType_of ''+'' = Some tt)
   \<and> ''+-('' \<noteq> [] \<and> set ''+-('' \<subseteq> set OPERATORS \<and> length ''+-('' \<le> (5::nat)
   \<and> snd (yield_tokens 5 ''+-('') = None \<and> concat (map raw (fst (yield_tokens 5 ''+-(''))) = ''+-(''
   \<and> Token ''-'' SUB \<in> set (fst (yield_tokens 5 ''+-(''))
   \<and> TokenType_of (raw (Token ''-'' SUB)) = Some (type (Token ''-'' SUB))
   \<and> (5::nat) < 6 \<and> snd (lexer 5 (replicate 6 (CHR ''(''))) = Some RecursionError"
proof -
  have len: "length ''a+-(b'' \<le> (5::nat)" by simp
  have c: "CHR ''+'' \<in> set OPERATORS" by (simp add: OPERATORS_def)
  have ops: "''+-('' \<noteq> [] \<and> set ''+-('' \<subseteq> set OPERATORS \<and> length ''+-('' \<le> (5::nat)"
    by (simp add: OPERATORS_def)
  have m: "Token ''-'' SUB \<in> set (fst (yield_tokens 5 ''+-(''))" by code_simp
  have n: "(5::nat) < 6" by simp
  from lexer_raises_only_RecursionError [of 5 "''a+-(b''" 6] len c ops m n show ?thesis
    by blast
qed

text \<open>
  Claim C4 as stated fails: under a limit of 1000 nested calls, the default of the
  interpreter for all calls together, a source of 1001 opening parentheses makes
  \<open>lexer\<close> raise \<open>RecursionError\<close>.
\<close>

theorem lexer_long_operator_run_raises:
  "snd (lexer 1000 (replicate 1001 (CHR ''(''))) = Some RecursionError"
  by (rule lexer_parens) simp

text \<open>
  Claim C5 (as amended): the stage that resolves operators is not longest-match from the
  left. It tries the whole run that is left as one spelling, and otherwise yields the
  first character alone and goes on with the rest. So the tokens of a run of operator
  characters are its single characters up to the first position from which the rest of
  the run is one spelling, and then that rest as one token. The source \<open>++\<close> lexes to one
  token of type \<open>INC\<close> and \<open>+-\<close> to \<open>ADD\<close> then \<open>SUB\<close>, but \<open>+++\<close> lexes to \<open>ADD\<close> then
  \<open>INC\<close>.
\<close>

theorem yield_tokens_whole_run_first:
  "(set rw \<subseteq> set OPERATORS \<and> k < length rw \<and> k < limit
      \<and> TokenType_of (drop k rw) = Some tt \<and> (\<forall>j<k. TokenType_of (drop j rw) = None) \<longrightarrow>
    yield_tokens limit rw =
      (map (\<lambda>c. Token [c] (the (TokenType_of [c]))) (take k rw) @ [Token (drop k rw) tt], None))
   \<and> (2 \<le> limit \<longrightarrow>
        lexer limit ''++'' = ([Token ''++'' INC], None)
      \<and> lexer limit ''+-'' = ([Token ''+'' ADD, Token ''-'' SUB], None)
      \<and> lexer limit ''+++'' = ([Token ''+'' ADD, Token ''++'' INC], None))"
proof (intro conjI impI)
  assume "set rw \<subseteq> set OPERATORS \<and> k < length rw \<and> k < limit
      \<and> TokenType_of (drop k rw) = Some tt \<and> (\<forall>j<k. TokenType_of (drop j rw) = None)"
  then show "yield_tokens limit rw =
      (map (\<lambda>c. Token [c] (the (TokenType_of [c]))) (take k rw) @ [Token (drop k rw) tt], None)"
    by (intro yield_tokens_first_spelling) simp_all
next
  assume l: "2 \<le> limit"
  have "snd (lexer 2 ''++'') \<noteq> Some RecursionError" by code_simp
  then have "lexer limit ''++'' = lexer 2 ''++''" using l by (rule lexer_mono)
  also have "\<dots> = ([Token ''++'' INC], None)" by code_simp
  finally show "lexer limit ''++'' = ([Token ''++'' INC], None)" .
next
  assume l: "2 \<le> limit"
  have "snd (lexer 2 ''+-'') \<noteq> Some RecursionError" by code_simp
  then have "lexer limit ''+-'' = lexer 2 ''+-''" using l by (rule lexer_mono)
  also have "\<dots> = ([Token ''+'' ADD, Token ''-'' SUB], None)" by code_simp
  finally show "lexer limit ''+-'' = ([Token ''+'' ADD, Token ''-'' SUB], None)" .
next
  assume l: "2 \<le> limit"
  have "snd (lexer 2 ''+++'') \<noteq> Some RecursionError" by code_simp
  then have "lexer limit ''+++'' = lexer 2 ''+++''" using l by (rule lexer_mono)
  also have "\<dots> = ([Token ''+'' ADD, Token ''++'' INC], None)" by code_simp
  finally show "lexer limit ''+++'' = ([Token ''+'' ADD, Token ''++'' INC], None)" .
qed

text \<open>
  The run \<open>++-\<close>: from no position but the last is the rest one spelling, so the run gives
  three tokens of one character; and the three sources of the claim under the limit 1000.
\<close>

theorem yield_tokens_whole_run_first_witness:
  "set ''++-'' \<subseteq> set OPERATORS \<and> (2::nat) < length ''++-'' \<and> (2::nat) < 1000
   \<and> TokenType_of (drop 2 ''++-'') = Some SUB
   \<and> TokenType_of (drop 0 ''++-'') = None \<and> TokenType_of (drop 1 ''++-'') = None
   \<and> yield_tokens 1000 ''++-'' = ([Token ''+'' ADD, Token ''+'' ADD, Token ''-'' SUB], None)
   \<and> (2::nat) \<le> 1000
   \<and> lexer 1000 ''++'' = ([Token ''++'' INC], None)
   \<and> lexer 1000 ''+-'' = ([Token ''+'' ADD, Token ''-'' SUB], None)
   \<and> lexer 1000 ''+++'' = ([Token ''+'' ADD, Token ''++'' INC], None)"
proof -
  have d: "TokenType_of (drop 2 ''++-'') = Some SUB" by code_simp
  have n: "\<forall>j<2. TokenType_of (drop j ''++-'') = None"
  proof (intro allI impI)
    fix j :: nat assume "j < 2"
    then have "j = 0 \<or> j = 1" by auto
    then show "TokenType_of (drop j ''++-'') = None"
      by (auto simp: TokenType_of_def literals_def)
  qed
  have h: "set ''++-'' \<subseteq> set OPERATORS \<and> (2::nat) < length ''++-'' \<and> (2::nat) < 1000"
    by (simp add: OPERATORS_def)
  have m: "map (\<lambda>c. Token [c] (the (TokenType_of [c]))) (take 2 ''++-'') @ [Token (drop 2 ''++-'') SUB]
      = [Token ''+'' ADD, Token ''+'' ADD, Token ''-'' SUB]"
    by code_simp
  have l: "(2::nat) \<le> 1000" by simp
  have n0: "TokenType_of (drop 0 ''++-'') = None \<and> TokenType_of (drop 1 ''++-'') = None"
    by (simp add: TokenType_of_def literals_def)
  from yield_tokens_whole_run_first [of "''++-''" 2 1000 SUB] h d n n0 m l show ?thesis
    by simp
qed

text \<open>
  Claim C5 as stated fails: the source \<open>++-\<close> starts with the spelling \<open>++\<close> of \<open>INC\<close>, and
  longest-match would make that its first token; \<open>lexer\<close> yields \<open>ADD\<close>, \<open>ADD\<close>, \<open>SUB\<close>.
\<close>

theorem lexer_not_longest_match:
  "TokenType_of (take 2 ''++-'') = Some INC
   \<and> lexer 1000 ''++-'' = ([Token ''+'' ADD, Token ''+'' ADD, Token ''-'' SUB], None)"
  by code_simp

text \<open>
  Claim C7: for every source string and every limit, no token that \<open>lexer\<close> yields (stages
  1 to 3, then stage 4) has type \<open>SPACE\<close>, \<open>COMMENT\<close> or \<open>NEWLINE\<close>.
\<close>

theorem lexer_no_noise:
  "\<forall>t \<in> set (fst (lexer limit src)). type t \<noteq> SPACE \<and> type t \<noteq> COMMENT \<and> type t \<noteq> NEWLINE"
  by (auto simp: lexer_def lexer_remove_unuseful_def dest: remove_unuseful_tokens_type)

theorem lexer_no_noise_witness:
  "Token ''a'' NAME \<in> set (fst (lexer 1000 (''a // b'' @ [newline] @ '' c'')))
   \<and> type (Token ''a'' NAME) \<noteq> SPACE \<and> type (Token ''a'' NAME) \<noteq> COMMENT
   \<and> type (Token ''a'' NAME) \<noteq> NEWLINE"
proof -
  have m: "Token ''a'' NAME \<in> set (fst (lexer 1000 (''a // b'' @ [newline] @ '' c'')))"
    by code_simp
  from lexer_no_noise [of 1000 "''a // b'' @ [newline] @ '' c''"] m show ?thesis by blast
qed

section \<open>Properties of AST nodes\<close>


lemma length_ASTNode_add: "length (fst (ASTNode_add h a b)) = length h"
  by (simp add: ASTNode_add_def Let_def)


lemma childs_ASTNode_add:
  "a < length h \<Longrightarrow> b < length h \<Longrightarrow>
   childs (fst (ASTNode_add h a b) ! x) = (if x = a then childs (h ! a) @ [b] else childs (h ! x))"
  by (cases "x = b") (simp_all add: ASTNode_add_def Let_def)






















section \<open>Properties of the parser\<close>

lemma nth_ASTNode_add: "r \<noteq> a \<Longrightarrow> r \<noteq> b \<Longrightarrow> fst (ASTNode_add h a b) ! r = h ! r"
  by (simp add: ASTNode_add_def Let_def)

lemma heap_next_token: "next_token st = Inr (t, st') \<Longrightarrow> heap st' = heap st"
  by (auto simp: next_token_def split: if_splits list.splits)

lemma heap_set_next_token: "heap (set_next_token v st) = heap st"
  by (simp add: set_next_token_def)

lemma heap_new_node:
  "(n, st') = new_node tok st \<Longrightarrow> n = length (heap st) \<and> heap st' = heap st @ [ASTNode_init tok]"
  by (simp add: new_node_def new_ASTNode_def)

lemma heap_add_node: "heap (add_node a b st) = fst (ASTNode_add (heap st) a b)"
  by (simp add: add_node_def)

lemma allocates_new_node: "(n, st') = new_node tok st \<Longrightarrow> allocates st n st'"
  by (auto simp: allocates_def dest!: heap_new_node simp: nth_append)

lemma allocates_next_token:
  "next_token st = Inr (t, st1) \<Longrightarrow> allocates st1 n st' \<Longrightarrow> allocates st n st'"
  by (auto simp: allocates_def dest!: heap_next_token)

lemma allocates_next_token_after:
  "allocates st n st1 \<Longrightarrow> next_token st1 = Inr (t, st') \<Longrightarrow> allocates st n st'"
  by (auto simp: allocates_def dest!: heap_next_token)

lemma allocates_set_next_token:
  "allocates st n st' \<Longrightarrow> allocates st n (set_next_token v st')"
  by (simp add: allocates_def heap_set_next_token)

lemma allocates_after_new_node:
  "(m, st1) = new_node tok st \<Longrightarrow> allocates st1 n st' \<Longrightarrow> allocates st m st' \<and> allocates st n st'"
  by (auto simp: allocates_def nth_append dest!: heap_new_node)

lemma allocates_add_node:
  "allocates st a st' \<Longrightarrow> allocates st b st' \<Longrightarrow> allocates st a (add_node a b st')"
  by (auto simp: allocates_def heap_add_node length_ASTNode_add nth_ASTNode_add)

lemma allocates_trans_node:
  "allocates st m st1 \<Longrightarrow> allocates st1 n st' \<Longrightarrow> allocates st m st' \<and> allocates st n st'"
  by (auto simp: allocates_def)

lemma allocates_parse_func_head:
  "parse_func_head st = Inr (n, st') \<Longrightarrow> allocates st n st'"
proof -
  assume a: "parse_func_head st = Inr (n, st')"
  then obtain name st1 where 1: "next_token st = Inr (name, st1)"
    by (auto simp: parse_func_head_def split: sum.splits)
  obtain node st2 where 2: "(node, st2) = new_node (Some name) st1"
    by (cases "new_node (Some name) st1") auto
  have h1: "heap st1 = heap st" using 1 by (rule heap_next_token)
  have h2: "node = length (heap st1) \<and> heap st2 = heap st1 @ [ASTNode_init (Some name)]"
    using 2 by (rule heap_new_node)
  from a 1 2 [symmetric] have "n = node \<and> heap st' = heap st2"
    by (auto simp: parse_func_head_def parse_func_args_def parse_type_hint_def heap_set_next_token
        split: sum.splits if_splits prod.splits dest!: heap_next_token)
  with h1 h2 show ?thesis by (auto simp: allocates_def nth_append)
qed

lemma allocates_parse:
  "parse_source st = Inr (n, st') \<Longrightarrow> allocates st n st'"
  "parse_scope st = Inr (n, st') \<Longrightarrow> allocates st n st'"
  "parse_block prev st = Inr (n, st') \<Longrightarrow> allocates st n st'"
  "parse_func_stmt prev st = Inr (n, st') \<Longrightarrow> allocates st n st'"
proof (induction st and st and prev st and prev st arbitrary: n st' and n st' and n st' and n st'
    rule: parse_source_parse_scope_parse_block_parse_func_stmt.induct)
  case (1 st)
  obtain root st1 where new: "(root, st1) = new_node None st"
    by (cases "new_node None st") auto
  from "1.prems" new [symmetric] obtain prev st2 where nt: "next_token st1 = Inr (prev, st2)"
    by (auto simp: parse_source.simps split: sum.splits)
  have a1: "allocates st root st1" using new by (rule allocates_new_node)
  then have a2: "allocates st root st2" using nt by (rule allocates_next_token_after)
  show ?case
  proof (cases "type prev = RBRACE")
    case True
    with "1.prems" new [symmetric] nt have "n = root" "st' = set_next_token prev st2"
      by (auto simp: parse_source.simps)
    with a2 show ?thesis by (simp add: allocates_set_next_token)
  next
    case False
    with "1.prems" new [symmetric] nt obtain node st3 where
      blk: "parse_block prev st2 = Inr (node, st3)" and
      res: "n = root" "st' = add_node root node st3"
      by (auto simp: parse_source.simps split: sum.splits)
    from "1.IH" [OF new nt refl False blk] have "allocates st2 node st3" .
    with a2 have "allocates st root st3 \<and> allocates st node st3" by (rule allocates_trans_node)
    with res show ?thesis by (simp add: allocates_add_node)
  qed
next
  case (2 st)
  from "2.prems" obtain prev st1 where nt: "next_token st = Inr (prev, st1)"
    by (auto simp: parse_scope.simps split: sum.splits)
  with "2.prems" have lb: "\<not> type prev \<noteq> LBRACE"
    by (auto simp: parse_scope.simps split: if_splits)
  with "2.prems" nt obtain node st2 where
    src: "parse_source st1 = Inr (node, st2)"
    by (auto simp: parse_scope.simps split: sum.splits)
  with "2.prems" nt lb obtain prev' where nt': "next_token st2 = Inr (prev', st')" and n: "n = node"
    by (auto simp: parse_scope.simps split: sum.splits if_splits)
  from "2.IH" [OF nt refl lb src] have "allocates st1 node st2" .
  with nt have "allocates st node st2" by (rule allocates_next_token)
  then have "allocates st node st'" using nt' by (rule allocates_next_token_after)
  with n show ?case by simp
next
  case (3 prev st)
  show ?case
  proof (cases "type prev = NOP")
    case True
    with "3.prems" have "(n, st') = new_node (Some prev) st"
      by (auto simp: parse_block.simps split: prod.splits)
    then show ?thesis by (rule allocates_new_node)
  next
    case False
    with "3.prems" have fn: "type prev = FN" and "parse_func_stmt prev st = Inr (n, st')"
      by (auto simp: parse_block.simps split: if_splits)
    with "3.IH" [OF False fn] show ?thesis by simp
  qed
next
  case (4 prev st)
  from "4.prems" have fn: "\<not> type prev \<noteq> FN"
    by (auto simp: parse_func_stmt.simps split: if_splits)
  obtain node st1 where new: "(node, st1) = new_node (Some prev) st"
    by (cases "new_node (Some prev) st") auto
  from "4.prems" fn new [symmetric] obtain head st2 where
    hd: "parse_func_head st1 = Inr (head, st2)"
    by (auto simp: parse_func_stmt.simps split: sum.splits)
  with "4.prems" fn new [symmetric] obtain body st3 where
    sc: "parse_scope (add_node node head st2) = Inr (body, st3)" and
    res: "n = node" "st' = add_node node body st3"
    by (auto simp: parse_func_stmt.simps split: sum.splits)
  from hd have "allocates st1 head st2" by (rule allocates_parse_func_head)
  with new have "allocates st node st2 \<and> allocates st head st2" by (rule allocates_after_new_node)
  then have "allocates st node (add_node node head st2)" by (simp add: allocates_add_node)
  moreover from "4.IH" [OF fn new hd refl sc] have "allocates (add_node node head st2) body st3" .
  ultimately have "allocates st node st3 \<and> allocates st body st3" by (rule allocates_trans_node)
  with res show ?case by (simp add: allocates_add_node)
qed

lemma next_token_more:
  "next_token st = Inr (t, st') \<Longrightarrow>
   next_token (more_tokens ts e st) = Inr (t, more_tokens ts e st')"
  by (auto simp: next_token_def more_tokens_def split: if_splits list.splits)

lemma set_next_token_more:
  "set_next_token v (more_tokens ts e st) = more_tokens ts e (set_next_token v st)"
  by (simp add: set_next_token_def more_tokens_def)

lemma new_node_more:
  "(n, st') = new_node tok st \<Longrightarrow> new_node tok (more_tokens ts e st) = (n, more_tokens ts e st')"
  by (simp add: new_node_def more_tokens_def)

lemma add_node_more:
  "add_node a b (more_tokens ts e st) = more_tokens ts e (add_node a b st)"
  by (simp add: add_node_def more_tokens_def)

lemma parse_func_head_more:
  assumes "parse_func_head st = Inr (n, st')"
  shows "parse_func_head (more_tokens ts e st) = Inr (n, more_tokens ts e st')"
proof -
  from assms obtain name st1 where 1: "next_token st = Inr (name, st1)"
    by (auto simp: parse_func_head_def split: sum.splits)
  with assms have nm: "\<not> type name \<noteq> NAME" by (auto simp: parse_func_head_def split: if_splits)
  obtain node st2 where 2: "(node, st2) = new_node (Some name) st1"
    by (cases "new_node (Some name) st1") auto
  from assms 1 nm 2 [symmetric] obtain p1 st3 where 3: "next_token st2 = Inr (p1, st3)"
    by (auto simp: parse_func_head_def split: sum.splits)
  with assms 1 nm 2 [symmetric] have lp: "\<not> type p1 \<noteq> LPARENTHESES"
    by (auto simp: parse_func_head_def split: if_splits)
  from assms 1 nm 2 [symmetric] 3 lp obtain p2 st4 where 4: "next_token st3 = Inr (p2, st4)"
    by (auto simp: parse_func_head_def split: sum.splits)
  with assms 1 nm 2 [symmetric] 3 lp have rp: "type p2 = RPARENTHESES"
    by (auto simp: parse_func_head_def parse_func_args_def split: if_splits)
  from assms 1 nm 2 [symmetric] 3 lp 4 rp obtain p3 st5 where 5: "next_token st4 = Inr (p3, st5)"
    by (auto simp: parse_func_head_def split: sum.splits)
  with assms 1 nm 2 [symmetric] 3 lp 4 rp have ar: "type p3 \<noteq> ARROW"
    and res: "n = node" "st' = set_next_token p3 st5"
    by (auto simp: parse_func_head_def parse_type_hint_def split: if_splits)
  show ?thesis
    unfolding parse_func_head_def
    by (simp add: next_token_more [OF 1] nm new_node_more [OF 2] next_token_more [OF 3] lp
        next_token_more [OF 4] rp next_token_more [OF 5] ar res set_next_token_more)
qed

lemma parse_more:
  "parse_source st = Inr (n, st') \<Longrightarrow>
   parse_source (more_tokens ts e st) = Inr (n, more_tokens ts e st')"
  "parse_scope st = Inr (n, st') \<Longrightarrow>
   parse_scope (more_tokens ts e st) = Inr (n, more_tokens ts e st')"
  "parse_block prev st = Inr (n, st') \<Longrightarrow>
   parse_block prev (more_tokens ts e st) = Inr (n, more_tokens ts e st')"
  "parse_func_stmt prev st = Inr (n, st') \<Longrightarrow>
   parse_func_stmt prev (more_tokens ts e st) = Inr (n, more_tokens ts e st')"
proof (induction st and st and prev st and prev st arbitrary: n st' and n st' and n st' and n st'
    rule: parse_source_parse_scope_parse_block_parse_func_stmt.induct)
  case (1 st)
  obtain root st1 where new: "(root, st1) = new_node None st"
    by (cases "new_node None st") auto
  from "1.prems" new [symmetric] obtain prev st2 where nt: "next_token st1 = Inr (prev, st2)"
    by (auto simp: parse_source.simps split: sum.splits)
  show ?case
  proof (cases "type prev = RBRACE")
    case True
    with "1.prems" new [symmetric] nt have "n = root" "st' = set_next_token prev st2"
      by (auto simp: parse_source.simps)
    with True show ?thesis
      by (subst parse_source.simps)
        (simp add: new_node_more [OF new] next_token_more [OF nt] set_next_token_more)
  next
    case False
    with "1.prems" new [symmetric] nt obtain node st3 where
      blk: "parse_block prev st2 = Inr (node, st3)" and
      res: "n = root" "st' = add_node root node st3"
      by (auto simp: parse_source.simps split: sum.splits)
    from "1.IH" [OF new nt refl False blk]
    have "parse_block prev (more_tokens ts e st2) = Inr (node, more_tokens ts e st3)" .
    with False res show ?thesis
      by (subst parse_source.simps)
        (simp add: new_node_more [OF new] next_token_more [OF nt] add_node_more)
  qed
next
  case (2 st)
  from "2.prems" obtain prev st1 where nt: "next_token st = Inr (prev, st1)"
    by (auto simp: parse_scope.simps split: sum.splits)
  with "2.prems" have lb: "\<not> type prev \<noteq> LBRACE"
    by (auto simp: parse_scope.simps split: if_splits)
  with "2.prems" nt obtain node st2 where
    src: "parse_source st1 = Inr (node, st2)"
    by (auto simp: parse_scope.simps split: sum.splits)
  with "2.prems" nt lb obtain prev' where nt': "next_token st2 = Inr (prev', st')"
    and rb: "\<not> type prev' \<noteq> RBRACE" and n: "n = node"
    by (auto simp: parse_scope.simps split: sum.splits if_splits)
  from "2.IH" [OF nt refl lb src]
  have "parse_source (more_tokens ts e st1) = Inr (node, more_tokens ts e st2)" .
  with lb rb n show ?case
    by (subst parse_scope.simps)
      (simp add: next_token_more [OF nt] next_token_more [OF nt'])
next
  case (3 prev st)
  show ?case
  proof (cases "type prev = NOP")
    case True
    with "3.prems" have "(n, st') = new_node (Some prev) st"
      by (auto simp: parse_block.simps split: prod.splits)
    from new_node_more [OF this] True show ?thesis
      by (subst parse_block.simps) simp
  next
    case False
    with "3.prems" have fn: "type prev = FN" and "parse_func_stmt prev st = Inr (n, st')"
      by (auto simp: parse_block.simps split: if_splits)
    with "3.IH" [OF False fn] False show ?thesis
      by (subst parse_block.simps) simp
  qed
next
  case (4 prev st)
  from "4.prems" have fn: "\<not> type prev \<noteq> FN"
    by (auto simp: parse_func_stmt.simps split: if_splits)
  obtain node st1 where new: "(node, st1) = new_node (Some prev) st"
    by (cases "new_node (Some prev) st") auto
  from "4.prems" fn new [symmetric] obtain head st2 where
    hd: "parse_func_head st1 = Inr (head, st2)"
    by (auto simp: parse_func_stmt.simps split: sum.splits)
  with "4.prems" fn new [symmetric] obtain body st3 where
    sc: "parse_scope (add_node node head st2) = Inr (body, st3)" and
    res: "n = node" "st' = add_node node body st3"
    by (auto simp: parse_func_stmt.simps split: sum.splits)
  from "4.IH" [OF fn new hd refl sc]
  have "parse_scope (more_tokens ts e (add_node node head st2)) = Inr (body, more_tokens ts e st3)" .
  with fn res show ?case
    by (subst parse_func_stmt.simps)
      (simp add: new_node_more [OF new] parse_func_head_more [OF hd] add_node_more)
qed

lemma parse_source_childs:
  assumes "parse_source st = Inr (root, st')"
  shows "length (childs (heap st' ! root)) \<le> 1"
proof -
  obtain r st1 where new: "(r, st1) = new_node None st"
    by (cases "new_node None st") auto
  from assms new [symmetric] obtain prev st2 where nt: "next_token st1 = Inr (prev, st2)"
    by (auto simp: parse_source.simps split: sum.splits)
  from new have r: "r = length (heap st)" and h1: "heap st1 = heap st @ [ASTNode_init None]"
    by (auto dest: heap_new_node)
  from nt have h2: "heap st2 = heap st1" by (rule heap_next_token)
  have c2: "childs (heap st2 ! r) = []" by (simp add: h2 h1 r ASTNode_init_def)
  show ?thesis
  proof (cases "type prev = RBRACE")
    case True
    with assms new [symmetric] nt have "root = r" "st' = set_next_token prev st2"
      by (auto simp: parse_source.simps)
    with c2 show ?thesis by (simp add: heap_set_next_token)
  next
    case False
    with assms new [symmetric] nt obtain node st3 where
      blk: "parse_block prev st2 = Inr (node, st3)" and
      res: "root = r" "st' = add_node r node st3"
      by (auto simp: parse_source.simps split: sum.splits)
    from blk have al: "allocates st2 node st3" by (rule allocates_parse(3))
    have rlt: "r < length (heap st2)" by (simp add: h2 h1 r)
    with al have "heap st3 ! r = heap st2 ! r" and "r < length (heap st3)" "node < length (heap st3)"
      by (auto simp: allocates_def)
    with c2 res show ?thesis by (simp add: heap_add_node childs_ASTNode_add)
  qed
qed

lemma parse_mono:
  "snd (lexer d src) \<noteq> Some RecursionError \<Longrightarrow> d \<le> d' \<Longrightarrow> parse d' src = parse d src"
  using lexer_mono [of d src d'] by (simp add: parse_def)

text \<open>
  Claim C2 (as amended): parsing the empty source returns no root node. The first read of
  \<open>next_token\<close> in \<open>parse_source\<close> finds the stack empty and the generator at its end,
  and \<open>parse\<close> raises \<open>StopIteration\<close>, under every limit.
\<close>

theorem parse_empty_source: "parse limit '''' = Inl StopIteration"
proof -
  have "snd (lexer 0 '''') \<noteq> Some RecursionError" by code_simp
  then have "parse limit '''' = parse 0 ''''" by (rule parse_mono) simp
  also have "\<dots> = Inl StopIteration" by code_simp
  finally show ?thesis .
qed

text \<open>
  Claim C2 as stated fails: \<open>parse\<close> on the empty source does not return; its result is
  no \<open>Inr\<close>.
\<close>

theorem parse_empty_source_no_root: "parse 1000 '''' \<notin> range Inr"
proof -
  have "snd (lexer 0 '''') \<noteq> Some RecursionError" by code_simp
  then have "parse 1000 '''' = parse 0 ''''" by (rule parse_mono) simp
  also have "\<dots> = Inl StopIteration" by code_simp
  finally show ?thesis by auto
qed

text \<open>
  Claim C3 (as amended): parsing \<open>fn main(\<close> ends, and ends by raising; no tree is
  returned. The exception is the \<open>StopIteration\<close> of the read after the opening
  parenthesis, which finds the generator at its end; it is not one of the parser's
  \<open>ValueError\<close>s and carries no token. The limit has to allow the one call of
  \<open>yield_tokens\<close> that the parenthesis needs.
\<close>

theorem parse_unterminated_parameters:
  "1 \<le> limit \<Longrightarrow> parse limit ''fn main('' = Inl StopIteration"
proof -
  assume l: "1 \<le> limit"
  have "snd (lexer 1 ''fn main('') \<noteq> Some RecursionError" by code_simp
  then have "parse limit ''fn main('' = parse 1 ''fn main(''" using l by (rule parse_mono)
  also have "\<dots> = Inl StopIteration" by code_simp
  finally show ?thesis .
qed

text \<open>
  The limit 1000.
\<close>

theorem parse_unterminated_parameters_witness:
  "(1::nat) \<le> 1000 \<and> parse 1000 ''fn main('' = Inl StopIteration"
  using parse_unterminated_parameters [of 1000] by simp

text \<open>
  Claim C3 as stated fails: the exception that \<open>parse\<close> raises on \<open>fn main(\<close> is no
  \<open>ValueError\<close>, the only exception of the parser that describes the token it met.
\<close>

theorem parse_unterminated_parameters_no_syntax_error:
  "parse 1000 ''fn main('' \<notin> range (Inl \<circ> ValueError)"
proof -
  have "snd (lexer 1 ''fn main('') \<noteq> Some RecursionError" by code_simp
  then have "parse 1000 ''fn main('' = parse 1 ''fn main(''" by (rule parse_mono) simp
  also have "\<dots> = Inl StopIteration" by code_simp
  finally show ?thesis by auto
qed

text \<open>
  Claim C6: parsing \<open>fn main() { }\<close> returns the root, node 0, whose only child is node 1
  with the \<open>FN\<close> token; the first child of node 1 is node 2 with the \<open>NAME\<close> token
  \<open>main\<close>, its second child is node 3 with a \<open>ROOT\<close> token and no children. All tokens
  are consumed. The limit has to allow the two nested calls of \<open>yield_tokens\<close> that the
  run of the two parentheses needs.
\<close>

theorem parse_fn_main:
  "2 \<le> limit \<Longrightarrow>
   parse limit ''fn main() { }'' =
     Inr (0, \<lparr>tokens = ([], None), token_stack = [],
              heap = [\<lparr>token = Token ''.'' ROOT, parent = None, childs = [1]\<rparr>,
                      \<lparr>token = Token ''fn'' FN, parent = Some 0, childs = [2, 3]\<rparr>,
                      \<lparr>token = Token ''main'' NAME, parent = Some 1, childs = []\<rparr>,
                      \<lparr>token = Token ''.'' ROOT, parent = Some 1, childs = []\<rparr>]\<rparr>)"
proof -
  assume l: "2 \<le> limit"
  have "snd (lexer 2 ''fn main() { }'') \<noteq> Some RecursionError" by code_simp
  then have "parse limit ''fn main() { }'' = parse 2 ''fn main() { }''"
    using l by (rule parse_mono)
  also have "\<dots> = Inr (0, \<lparr>tokens = ([], None), token_stack = [],
              heap = [\<lparr>token = Token ''.'' ROOT, parent = None, childs = [1]\<rparr>,
                      \<lparr>token = Token ''fn'' FN, parent = Some 0, childs = [2, 3]\<rparr>,
                      \<lparr>token = Token ''main'' NAME, parent = Some 1, childs = []\<rparr>,
                      \<lparr>token = Token ''.'' ROOT, parent = Some 1, childs = []\<rparr>]\<rparr>)"
    by code_simp
  finally show ?thesis .
qed

text \<open>
  The limit 1000.
\<close>

theorem parse_fn_main_witness:
  "(2::nat) \<le> 1000 \<and>
   parse 1000 ''fn main() { }'' =
     Inr (0, \<lparr>tokens = ([], None), token_stack = [],
              heap = [\<lparr>token = Token ''.'' ROOT, parent = None, childs = [1]\<rparr>,
                      \<lparr>token = Token ''fn'' FN, parent = Some 0, childs = [2, 3]\<rparr>,
                      \<lparr>token = Token ''main'' NAME, parent = Some 1, childs = []\<rparr>,
                      \<lparr>token = Token ''.'' ROOT, parent = Some 1, childs = []\<rparr>]\<rparr>)"
  using parse_fn_main [of 1000] by simp

text \<open>
  Claim C9: whenever \<open>parse\<close> returns, the root it returns has at most one child. Tokens
  behind the first statement are neither read nor checked: if \<open>parse_source\<close> returns on
  a token stream, it returns the same root and heap on that stream with any tokens added
  to its end, however the longer stream ends, and the added tokens are left in the stream.
  Parsing \<open>nop nop\<close> returns a root whose only child is a \<open>NOP\<close> node, with the second
  \<open>nop\<close> still in the stream.
\<close>

theorem parse_at_most_one_statement:
  "(parse limit src = Inr (root, st) \<longrightarrow> length (childs (heap st ! root)) \<le> 1)
   \<and> (parse_source \<lparr>tokens = (ts, e), token_stack = [], heap = []\<rparr> = Inr (root', st') \<longrightarrow>
        parse_source \<lparr>tokens = (ts @ extra, e'), token_stack = [], heap = []\<rparr>
          = Inr (root', st'\<lparr>tokens := (fst (tokens st') @ extra, e')\<rparr>))
   \<and> parse limit ''nop nop'' =
        Inr (0, \<lparr>tokens = ([Token ''nop'' NOP], None), token_stack = [],
                 heap = [\<lparr>token = Token ''.'' ROOT, parent = None, childs = [1]\<rparr>,
                         \<lparr>token = Token ''nop'' NOP, parent = Some 0, childs = []\<rparr>]\<rparr>)"
proof (intro conjI impI)
  assume "parse limit src = Inr (root, st)"
  then show "length (childs (heap st ! root)) \<le> 1"
    unfolding parse_def by (rule parse_source_childs)
next
  assume "parse_source \<lparr>tokens = (ts, e), token_stack = [], heap = []\<rparr> = Inr (root', st')"
  from parse_more(1) [OF this, of extra e']
  show "parse_source \<lparr>tokens = (ts @ extra, e'), token_stack = [], heap = []\<rparr>
          = Inr (root', st'\<lparr>tokens := (fst (tokens st') @ extra, e')\<rparr>)"
    by (simp add: more_tokens_def)
next
  have "snd (lexer 0 ''nop nop'') \<noteq> Some RecursionError" by code_simp
  then have "parse limit ''nop nop'' = parse 0 ''nop nop''" by (rule parse_mono) simp
  also have "\<dots> = Inr (0, \<lparr>tokens = ([Token ''nop'' NOP], None), token_stack = [],
                 heap = [\<lparr>token = Token ''.'' ROOT, parent = None, childs = [1]\<rparr>,
                         \<lparr>token = Token ''nop'' NOP, parent = Some 0, childs = []\<rparr>]\<rparr>)"
    by code_simp
  finally show "parse limit ''nop nop'' =
        Inr (0, \<lparr>tokens = ([Token ''nop'' NOP], None), token_stack = [],
                 heap = [\<lparr>token = Token ''.'' ROOT, parent = None, childs = [1]\<rparr>,
                         \<lparr>token = Token ''nop'' NOP, parent = Some 0, childs = []\<rparr>]\<rparr>)" .
qed

text \<open>
  The source \<open>nop nop\<close>, and the stream of one \<open>nop\<close> with two more tokens added to it.
\<close>

theorem parse_at_most_one_statement_witness:
  "parse 1000 ''nop nop'' =
     Inr (0, \<lparr>tokens = ([Token ''nop'' NOP], None), token_stack = [],
              heap = [\<lparr>token = Token ''.'' ROOT, parent = None, childs = [1]\<rparr>,
                      \<lparr>token = Token ''nop'' NOP, parent = Some 0, childs = []\<rparr>]\<rparr>)
   \<and> length (childs ([\<lparr>token = Token ''.'' ROOT, parent = None, childs = [1]\<rparr>,
                       \<lparr>token = Token ''nop'' NOP, parent = Some 0, childs = []\<rparr>] ! 0)) \<le> 1
   \<and> parse_source \<lparr>tokens = ([Token ''nop'' NOP], None), token_stack = [], heap = []\<rparr> =
       Inr (0, \<lparr>tokens = ([], None), token_stack = [],
                heap = [\<lparr>token = Token ''.'' ROOT, parent = None, childs = [1]\<rparr>,
                        \<lparr>token = Token ''nop'' NOP, parent = Some 0, childs = []\<rparr>]\<rparr>)
   \<and> parse_source \<lparr>tokens = ([Token ''nop'' NOP] @ [Token ''}'' RBRACE, Token ''x'' NAME], Some IndexError),
                    token_stack = [], heap = []\<rparr> =
       Inr (0, \<lparr>tokens = ([Token ''}'' RBRACE, Token ''x'' NAME], Some IndexError), token_stack = [],
                heap = [\<lparr>token = Token ''.'' ROOT, parent = None, childs = [1]\<rparr>,
                        \<lparr>token = Token ''nop'' NOP, parent = Some 0, childs = []\<rparr>]\<rparr>)"
proof -
  let ?h = "[\<lparr>token = Token ''.'' ROOT, parent = None, childs = [1]\<rparr>,
             \<lparr>token = Token ''nop'' NOP, parent = Some 0, childs = []\<rparr>]"
  let ?st = "\<lparr>tokens = ([Token ''nop'' NOP], None), token_stack = [], heap = ?h\<rparr>"
  let ?st' = "\<lparr>tokens = ([], None), token_stack = [], heap = ?h\<rparr>"
  have one: "parse_source \<lparr>tokens = ([Token ''nop'' NOP], None), token_stack = [], heap = []\<rparr>
      = Inr (0, ?st')"
    by code_simp
  have a: "parse 1000 ''nop nop'' = Inr (0, ?st)"
    using parse_at_most_one_statement [of 1000 "''nop nop''" 0 ?st "[]" None 0 ?st' "[]" None]
    by blast
  have b: "length (childs (heap ?st ! 0)) \<le> 1"
    using parse_at_most_one_statement [of 1000 "''nop nop''" 0 ?st "[]" None 0 ?st' "[]" None] a
    by blast
  have c: "parse_source \<lparr>tokens = ([Token ''nop'' NOP] @ [Token ''}'' RBRACE, Token ''x'' NAME], Some IndexError),
                    token_stack = [], heap = []\<rparr> =
       Inr (0, ?st'\<lparr>tokens := (fst (tokens ?st') @ [Token ''}'' RBRACE, Token ''x'' NAME], Some IndexError)\<rparr>)"
    using parse_at_most_one_statement [of 1000 "''nop nop''" 0 ?st "[Token ''nop'' NOP]" None 0 ?st'
        "[Token ''}'' RBRACE, Token ''x'' NAME]" "Some IndexError"] one
    by blast
  from a b one c show ?thesis by simp
qed

text \<open>
  Claim C10: when the first token that \<open>lexer\<close> yields for a source is a closing brace,
  \<open>parse\<close> returns a root without children; the brace is on the stack of the returned
  state, the rest of the stream is unread, and no error is raised.
\<close>

theorem parse_leading_rbrace:
  assumes "fst (lexer limit src) = t # ts" and "type t = RBRACE"
  shows "parse limit src =
     Inr (0, \<lparr>tokens = (ts, snd (lexer limit src)), token_stack = [t],
              heap = [\<lparr>token = Token ''.'' ROOT, parent = None, childs = []\<rparr>]\<rparr>)"
  unfolding parse_def using assms
  by (subst parse_source.simps)
    (simp add: new_node_def new_ASTNode_def next_token_def set_next_token_def ASTNode_init_def)

text \<open>
  The source that is a single closing brace.
\<close>

theorem parse_leading_rbrace_witness:
  "fst (lexer 1000 ''}'') = [Token ''}'' RBRACE] \<and> type (Token ''}'' RBRACE) = RBRACE
   \<and> parse 1000 ''}'' =
     Inr (0, \<lparr>tokens = ([], None), token_stack = [Token ''}'' RBRACE],
              heap = [\<lparr>token = Token ''.'' ROOT, parent = None, childs = []\<rparr>]\<rparr>)"
proof -
  have l: "fst (lexer 1000 ''}'') = [Token ''}'' RBRACE]" by code_simp
  have e: "snd (lexer 1000 ''}'') = None" by code_simp
  have t: "type (Token ''}'' RBRACE) = RBRACE" by (simp add: Token_def)
  from parse_leading_rbrace [OF l t] l t e show ?thesis by simp
qed

end
